theory Spec2Isabelle
  imports Main "HOL-Library.AList"
begin

section \<open>Python values used by novelendless.py\<close>

text \<open>
  A Python \<open>str\<close> is a sequence of Unicode code points, so a token is the list of
  its code points (\<open>int\<close>, as \<open>ord\<close> gives them) and \<open>"".join(out)\<close> is
  \<open>concat out\<close>. A tuple of tokens (a state) is a list of tokens. A \<open>dict\<close> keeps its insertion order, which \<open>model.keys()\<close> and
  \<open>counter.items()\<close> expose to the random choices, so dictionaries are association
  lists in insertion order: \<open>map_of\<close> reads a key, \<open>AList.update\<close> overwrites a key in
  place or appends a new one at the end. Counts are Python integers (\<open>int\<close>).
\<close>

type_synonym pystr = "int list"
type_synonym state = "pystr list"
type_synonym counter = "(pystr \<times> int) list"
type_synonym model = "(state \<times> counter) list"

text \<open>
  The exceptions the modelled code can raise: \<open>IndexError\<close> (indexing out of range,
  \<open>random.choice\<close> on an empty sequence), \<open>UnpackError\<close> (the \<open>ValueError\<close> of
  \<open>tokens, weights = zip(*counter.items())\<close> on an empty counter), \<open>OverflowError\<close>
  (raised by \<open>random.choices\<close> when the total weight is an integer too large to
  convert to a float) and \<open>WeightError\<close> (the \<open>ValueError\<close> of \<open>random.choices\<close>
  when the total weight is not positive).
\<close>

datatype error = IndexError | UnpackError | WeightError | OverflowError

definition py_index :: "'a list \<Rightarrow> int \<Rightarrow> error + 'a" where
  \<comment> \<open>\<open>xs[k]\<close>: a negative index counts from the end, out of range raises.\<close>
  "py_index xs k =
     (let L = int (length xs); j = (if k < 0 then k + L else k)
      in if 0 \<le> j \<and> j < L then Inr (xs ! nat j) else Inl IndexError)"

definition slice_bound :: "nat \<Rightarrow> int \<Rightarrow> nat" where
  \<comment> \<open>How a slice bound is normalised against the length \<open>L\<close>.\<close>
  "slice_bound L a = (if a < 0 then nat (max (a + int L) 0) else min (nat a) L)"

definition py_slice :: "'a list \<Rightarrow> int \<Rightarrow> int \<Rightarrow> 'a list" where
  \<comment> \<open>\<open>xs[a:b]\<close>; never raises.\<close>
  "py_slice xs a b =
     (let lo = slice_bound (length xs) a; hi = slice_bound (length xs) b
      in take (hi - lo) (drop lo xs))"

definition py_slice_from :: "'a list \<Rightarrow> int \<Rightarrow> 'a list" where
  \<comment> \<open>\<open>xs[a:]\<close>\<close>
  "py_slice_from xs a = drop (slice_bound (length xs) a) xs"

definition py_range :: "int \<Rightarrow> int list" where
  \<comment> \<open>\<open>range(k)\<close>: \<open>0, ..., k - 1\<close>, empty when \<open>k \<le> 0\<close>.\<close>
  "py_range k = map int [0..<nat k]"

section \<open>Configuration\<close>

definition END_TOKENS :: "pystr set" where
  \<comment> \<open>ideographic full stop, fullwidth exclamation mark, fullwidth question mark, newline\<close>
  "END_TOKENS = {[12290], [65281], [65311], [10]}"

definition START_EXCLUDE :: "pystr set" where
  \<comment> \<open>ga, ni, de, kara, wo, ha, te, to, mo, he, ya, no, yori, shika, dake, dari\<close>
  "START_EXCLUDE = {[12364], [12395], [12391], [12363, 12425], [12434], [12399], [12390],
     [12392], [12418], [12408], [12420], [12398], [12424, 12426], [12375, 12363],
     [12384, 12369], [12384, 12426]}"

section \<open>The tagger and the particle check\<close>

text \<open>
  The morphological analyser (\<open>fugashi.Tagger\<close>) is not part of the program: it is a
  parameter, a function from a text to the nodes of its analysis. A node has a surface
  form and a feature. The feature is either an object, whose \<open>pos\<close> attribute may be
  missing or \<open>None\<close> (\<open>getattr(token.feature, "pos", None)\<close>) or a tuple of strings, or
  a plain comma-separated string (older dictionaries).
\<close>

datatype feature = FeatureObj "pystr list option" | FeatureStr pystr

record node =
  surface :: pystr
  feature :: feature

type_synonym tagger = "pystr \<Rightarrow> node list"

definition JOSHI :: pystr where
  \<comment> \<open>the part-of-speech name of a particle, two code points\<close>
  "JOSHI = [21161, 35422]"

fun feature_is_particle :: "feature \<Rightarrow> bool" where
  "feature_is_particle (FeatureObj None) = False"
| "feature_is_particle (FeatureObj (Some [])) = False"
| "feature_is_particle (FeatureObj (Some (p # ps))) = (p = JOSHI)"
| "feature_is_particle (FeatureStr s) = (takeWhile (\<lambda>c. c \<noteq> 44) s = JOSHI)"

definition is_particle :: "tagger \<Rightarrow> pystr \<Rightarrow> bool" where
  "is_particle tg word = list_ex (\<lambda>token. feature_is_particle (feature token)) (tg word)"

definition tokenize :: "tagger \<Rightarrow> pystr \<Rightarrow> pystr list" where
  "tokenize tg text = map surface (tg text)"

section \<open>build_model\<close>

definition bump :: "model \<Rightarrow> state \<Rightarrow> pystr \<Rightarrow> model" where
  \<comment> \<open>\<open>model[state][nxt] += 1\<close> on a \<open>defaultdict(Counter)\<close>: a missing state gets an
      empty counter, a missing token counts as 0.\<close>
  "bump m st nxt =
     (let cnt = (case map_of m st of None \<Rightarrow> [] | Some c \<Rightarrow> c);
          old = (case map_of cnt nxt of None \<Rightarrow> 0 | Some v \<Rightarrow> v)
      in AList.update st (AList.update nxt (old + 1) cnt) m)"

fun build_loop :: "pystr list \<Rightarrow> int \<Rightarrow> int list \<Rightarrow> model \<Rightarrow> error + model" where
  "build_loop tokens n [] m = Inr m"
| "build_loop tokens n (i # is) m =
     (let st = py_slice tokens i (i + n - 1)
      in case py_index tokens (i + n - 1) of
           Inl e \<Rightarrow> Inl e
         | Inr nxt \<Rightarrow> build_loop tokens n is (bump m st nxt))"

definition build_model_tokens :: "pystr list \<Rightarrow> int \<Rightarrow> error + model" where
  \<comment> \<open>lines 47 to 54, after \<open>tokens = tokenize(text)\<close>\<close>
  "build_model_tokens tokens n =
     (if int (length tokens) < n then Inr []
      else build_loop tokens n (py_range (int (length tokens) - n)) [])"

definition build_model :: "tagger \<Rightarrow> pystr \<Rightarrow> int \<Rightarrow> error + model" where
  "build_model tg text n = build_model_tokens (tokenize tg text) n"

definition model_count :: "model \<Rightarrow> state \<Rightarrow> pystr \<Rightarrow> int" where
  \<comment> \<open>the count read as \<open>model[state][tok]\<close> reads it: 0 where nothing is stored\<close>
  "model_count m st tok =
     (case map_of m st of None \<Rightarrow> 0
      | Some c \<Rightarrow> (case map_of c tok of None \<Rightarrow> 0 | Some v \<Rightarrow> v))"

section \<open>The random source\<close>

text \<open>
  The module \<open>random\<close> is a global generator with a hidden state. It is a parameter:
  a type \<open>'g\<close> of generator states with the three operations the program uses.
  \<open>rseed s\<close> is the state after \<open>random.seed(s)\<close>; \<open>rchoice g k\<close> is the index that
  \<open>random.choice\<close> draws in a sequence of length \<open>k\<close> and the state after the draw;
  \<open>rchoices g ws\<close> is the index that \<open>random.choices(..., weights=ws, k=1)\<close> draws,
  and the state after. The library returns an index inside the sequence; the model
  reduces the drawn index modulo the length so that every instance does.
\<close>

record 'g rng =
  rseed :: "int \<Rightarrow> 'g"
  rchoice :: "'g \<Rightarrow> nat \<Rightarrow> nat \<times> 'g"
  rchoices :: "'g \<Rightarrow> int list \<Rightarrow> nat \<times> 'g"

definition random_choice :: "'g rng \<Rightarrow> 'g \<Rightarrow> 'a list \<Rightarrow> error + ('a \<times> 'g)" where
  "random_choice R g xs =
     (if xs = [] then Inl IndexError
      else (case rchoice R g (length xs) of
              (i, g') \<Rightarrow> Inr (xs ! (i mod length xs), g')))"

definition FLOAT_LIMIT :: int where
  \<comment> \<open>the least positive integer that does not convert to a float: halfway between
      the largest double and \<open>2 ^ 1024\<close>, where rounding to even overflows\<close>
  "FLOAT_LIMIT = 2 ^ 1024 - 2 ^ 970"

definition choose_next :: "'g rng \<Rightarrow> counter \<Rightarrow> 'g \<Rightarrow> error + (pystr \<times> 'g)" where
  \<comment> \<open>\<open>random.choices\<close> accumulates the weights as integers, converts the total
      with \<open>total = cum_weights[-1] + 0.0\<close>, then rejects \<open>total <= 0.0\<close>\<close>
  "choose_next R cnt g =
     (if cnt = [] then Inl UnpackError
      else let tokens = map fst cnt; weights = map snd cnt; total = sum_list weights
           in if FLOAT_LIMIT \<le> \<bar>total\<bar> then Inl OverflowError
              else if total \<le> 0 then Inl WeightError
              else (case rchoices R g weights of
                      (i, g') \<Rightarrow> Inr (tokens ! (i mod length tokens), g')))"

section \<open>generate_sentence\<close>

fun start_candidates :: "state list \<Rightarrow> error + state list" where
  \<comment> \<open>\<open>[s for s in model.keys() if s[0] not in END_TOKENS]\<close>\<close>
  "start_candidates [] = Inr []"
| "start_candidates (s # ss) =
     (case py_index s 0 of
        Inl e \<Rightarrow> Inl e
      | Inr t \<Rightarrow>
          (case start_candidates ss of
             Inl e \<Rightarrow> Inl e
           | Inr r \<Rightarrow> Inr (if t \<notin> END_TOKENS then s # r else r)))"

text \<open>
  The start loop \<open>while True: state = random.choice(candidates); if not
  is_particle(state[0]): break\<close> has no bound: not returning is the value \<open>None\<close>.
\<close>

partial_function (option) pick_start ::
  "'g rng \<Rightarrow> tagger \<Rightarrow> state list \<Rightarrow> 'g \<Rightarrow> (error + state \<times> 'g) option" where
  "pick_start R tg candidates g =
     (case random_choice R g candidates of
        Inl e \<Rightarrow> Some (Inl e)
      | Inr (st, g') \<Rightarrow>
          (case py_index st 0 of
             Inl e \<Rightarrow> Some (Inl e)
           | Inr t \<Rightarrow>
               if \<not> is_particle tg t then Some (Inr (st, g'))
               else pick_start R tg candidates g'))"

declare pick_start.simps [code]

function extend_loop ::
  "'g rng \<Rightarrow> model \<Rightarrow> int \<Rightarrow> int \<Rightarrow> state \<Rightarrow> pystr list \<Rightarrow> 'g \<Rightarrow> error + pystr list \<times> 'g" where
  "extend_loop R m n max_len st out g =
     (if int (length out) < max_len then
        (case map_of m st of
           None \<Rightarrow> Inr (out, g)
         | Some cnt \<Rightarrow>
             if cnt = [] then Inr (out, g)
             else (case choose_next R cnt g of
                     Inl e \<Rightarrow> Inl e
                   | Inr (nxt, g') \<Rightarrow>
                       if nxt \<in> END_TOKENS then Inr (out @ [nxt], g')
                       else extend_loop R m n max_len
                              (py_slice_from (out @ [nxt]) (- (n - 1))) (out @ [nxt]) g'))
      else Inr (out, g))"
  by pat_completeness auto
termination
  by (relation "measure (\<lambda>(R, m, n, max_len, st, out, g). nat (max_len - int (length out)))")
     auto

declare extend_loop.simps [simp del]

definition candidates_of :: "model \<Rightarrow> error + state list" where
  \<comment> \<open>lines 66 to 68: the filtered keys, or all keys when the filter leaves none\<close>
  "candidates_of m =
     (case start_candidates (map fst m) of
        Inl e \<Rightarrow> Inl e
      | Inr c \<Rightarrow> Inr (if c = [] then map fst m else c))"

definition generate_out ::
  "'g rng \<Rightarrow> tagger \<Rightarrow> model \<Rightarrow> int \<Rightarrow> int \<Rightarrow> int option \<Rightarrow> 'g
     \<Rightarrow> (error + pystr list \<times> 'g) option" where
  \<comment> \<open>lines 61 to 87: the token list \<open>out\<close> (empty for the empty model, whose result
      is the empty string) and the state of the generator afterwards\<close>
  "generate_out R tg m n max_len seed g =
     (let g0 = (case seed of None \<Rightarrow> g | Some s \<Rightarrow> rseed R s)
      in if m = [] then Some (Inr ([], g0))
         else (case candidates_of m of
                 Inl e \<Rightarrow> Some (Inl e)
               | Inr candidates \<Rightarrow>
                   (case pick_start R tg candidates g0 of
                      None \<Rightarrow> None
                    | Some (Inl e) \<Rightarrow> Some (Inl e)
                    | Some (Inr (st, g1)) \<Rightarrow> Some (extend_loop R m n max_len st st g1))))"

definition generate_sentence ::
  "'g rng \<Rightarrow> tagger \<Rightarrow> model \<Rightarrow> int \<Rightarrow> int \<Rightarrow> int option \<Rightarrow> 'g
     \<Rightarrow> (error + pystr \<times> 'g) option" where
  \<comment> \<open>\<open>return "".join(out)\<close>\<close>
  "generate_sentence R tg m n max_len seed g =
     (case generate_out R tg m n max_len seed g of
        None \<Rightarrow> None
      | Some (Inl e) \<Rightarrow> Some (Inl e)
      | Some (Inr (out, g')) \<Rightarrow> Some (Inr (concat out, g')))"

section \<open>The model invariant, the window count and the draws of the start loop\<close>

text \<open>
  \<open>model_inv k m\<close>: every state key of \<open>m\<close> has \<open>k\<close> tokens, every counter has an
  entry and every stored count is at least 1. \<open>window_hits tokens k st t js\<close> is the
  number of indices \<open>j\<close> in \<open>js\<close> at which the \<open>k\<close> tokens from \<open>j\<close> are \<open>st\<close> and the
  token after them is \<open>t\<close>.
\<close>

definition model_inv :: "nat \<Rightarrow> model \<Rightarrow> bool" where
  "model_inv k m =
     list_all (\<lambda>(st, cnt). length st = k \<and> cnt \<noteq> [] \<and> list_all (\<lambda>(t, w). 1 \<le> w) cnt) m"


definition window_hits :: "pystr list \<Rightarrow> nat \<Rightarrow> state \<Rightarrow> pystr \<Rightarrow> nat list \<Rightarrow> nat" where
  "window_hits tokens k st t js =
     length (filter (\<lambda>j. take k (drop j tokens) = st \<and> tokens ! (j + k) = t) js)"

text \<open>
  The start loop draws from the same candidate list until it accepts.
  \<open>start_rng_state R L g k\<close> is the state of the generator after \<open>k\<close> draws from a list
  of length \<open>L\<close>, started in \<open>g\<close>; \<open>start_draw R c g k\<close> is the candidate that draw number
  \<open>k\<close> (counted from 0) selects.
\<close>

primrec start_rng_state :: "'g rng \<Rightarrow> nat \<Rightarrow> 'g \<Rightarrow> nat \<Rightarrow> 'g" where
  "start_rng_state R L g 0 = g"
| "start_rng_state R L g (Suc k) = start_rng_state R L (snd (rchoice R g L)) k"

definition start_draw :: "'g rng \<Rightarrow> state list \<Rightarrow> 'g \<Rightarrow> nat \<Rightarrow> state" where
  "start_draw R c g k =
     c ! (fst (rchoice R (start_rng_state R (length c) g k) (length c)) mod length c)"


section \<open>Example taggers, random sources and token sequences\<close>

text \<open>
  Concrete parameters for the examples below. \<open>plain_tagger\<close> analyses a text as one
  node whose feature object has no \<open>pos\<close> attribute; \<open>pos_tagger\<close> gives every text a
  \<open>pos\<close> tuple, the particle tag for the token \<open>ha\<close> (code point 12399) and the noun
  tag for everything else. \<open>first_rng\<close> always draws index 0; \<open>cycle_rng\<close> draws
  0, 1, 2, ... (reduced modulo the length by the model) and is seeded with \<open>\<bar>s\<bar>\<close>.
\<close>

definition plain_tagger :: tagger where
  "plain_tagger w = [\<lparr>surface = w, feature = FeatureObj None\<rparr>]"

definition pos_tagger :: tagger where
  "pos_tagger w =
     [\<lparr>surface = w,
       feature = FeatureObj (Some [if w = [12399] then JOSHI else [21517, 35422]])\<rparr>]"

definition first_rng :: "nat rng" where
  "first_rng =
     \<lparr>rseed = (\<lambda>s. 0), rchoice = (\<lambda>g k. (0, g)), rchoices = (\<lambda>g ws. (0, g))\<rparr>"

definition cycle_rng :: "nat rng" where
  "cycle_rng =
     \<lparr>rseed = (\<lambda>s. nat \<bar>s\<bar>), rchoice = (\<lambda>g k. (g, Suc g)),
      rchoices = (\<lambda>g ws. (g, Suc g))\<rparr>"

definition cat_tokens :: "pystr list" where
  \<comment> \<open>watashi, ha, neko, da, full stop, neko, ha, kawaii, full stop\<close>
  "cat_tokens = [[31169], [12399], [29483], [12384], [12290], [29483], [12399],
     [21487, 24859, 12356], [12290]]"

section \<open>Properties of build_model\<close>

lemma slice_bound_inside: "0 \<le> a \<Longrightarrow> a \<le> int L \<Longrightarrow> slice_bound L a = nat a"
  by (simp add: slice_bound_def)

lemma py_slice_window:
  assumes "1 \<le> n" and "int j + n - 1 \<le> int (length xs)"
  shows "py_slice xs (int j) (int j + n - 1) = take (nat (n - 1)) (drop j xs)"
proof -
  have lo: "slice_bound (length xs) (int j) = j"
    using assms by (simp add: slice_bound_inside)
  have hi: "slice_bound (length xs) (int j + n - 1) = j + nat (n - 1)"
    using assms by (simp add: slice_bound_inside nat_add_distrib)
  show ?thesis by (simp add: py_slice_def lo hi)
qed

lemma py_index_window:
  assumes "1 \<le> n" and "int j + n - 1 < int (length xs)"
  shows "py_index xs (int j + n - 1) = Inr (xs ! (j + nat (n - 1)))"
proof -
  have "nat (int j + n - 1) = j + nat (n - 1)"
    using assms by (simp add: nat_add_distrib)
  then show ?thesis using assms by (simp add: py_index_def)
qed

lemma build_loop_foldl:
  assumes "1 \<le> n" and "\<forall>j\<in>set js. int j + n - 1 < int (length tokens)"
  shows "build_loop tokens n (map int js) m =
         Inr (foldl (\<lambda>m j. bump m (take (nat (n - 1)) (drop j tokens)) (tokens ! (j + nat (n - 1)))) m js)"
  using assms(2)
proof (induction js arbitrary: m)
  case Nil
  then show ?case by simp
next
  case (Cons j js)
  from Cons.prems have lt: "int j + n - 1 < int (length tokens)" by simp
  then have le: "int j + n - 1 \<le> int (length tokens)" by simp
  from Cons.prems have rest: "\<forall>j\<in>set js. int j + n - 1 < int (length tokens)" by simp
  show ?case
    by (simp add: py_slice_window [OF assms(1) le] py_index_window [OF assms(1) lt] Cons.IH [OF rest])
qed

lemma model_count_bump:
  "model_count (bump m st nxt) st' t' =
     model_count m st' t' + (if st' = st \<and> t' = nxt then 1 else 0)"
  by (simp add: model_count_def bump_def update_conv' Let_def split: option.splits)

lemma model_count_foldl:
  "model_count (foldl (\<lambda>m j. bump m (take k (drop j tokens)) (tokens ! (j + k))) m js) st t =
     model_count m st t + int (window_hits tokens k st t js)"
proof (induction js arbitrary: m)
  case Nil
  then show ?case by (simp add: window_hits_def)
next
  case (Cons j js)
  show ?case
    using Cons.IH [of "bump m (take k (drop j tokens)) (tokens ! (j + k))"]
    by (simp add: model_count_bump window_hits_def)
qed

lemma set_update_subset: "set (AList.update k v al) \<subseteq> insert (k, v) (set al)"
  by (induction al) auto


lemma model_inv_iff:
  "model_inv k m \<longleftrightarrow>
     (\<forall>st cnt. (st, cnt) \<in> set m \<longrightarrow> length st = k \<and> cnt \<noteq> [] \<and> (\<forall>t w. (t, w) \<in> set cnt \<longrightarrow> 1 \<le> w))"
  by (auto simp: model_inv_def list_all_iff)

lemma model_inv_bump:
  assumes "model_inv k m" and "length st = k"
  shows "model_inv k (bump m st nxt)"
proof -
  define cnt where "cnt = (case map_of m st of None \<Rightarrow> [] | Some c \<Rightarrow> c)"
  define old where "old = (case map_of cnt nxt of None \<Rightarrow> 0 | Some v \<Rightarrow> v)"
  define new where "new = AList.update nxt (old + 1) cnt"
  have cnt_pos: "1 \<le> w" if "(t, w) \<in> set cnt" for t w
  proof (cases "map_of m st")
    case None
    with that show ?thesis by (simp add: cnt_def)
  next
    case (Some c)
    then have "(st, c) \<in> set m" by (rule map_of_SomeD)
    with assms(1) that show ?thesis
      by (simp add: cnt_def Some model_inv_iff)
  qed
  have old_nonneg: "0 \<le> old"
  proof (cases "map_of cnt nxt")
    case None
    then show ?thesis by (simp add: old_def)
  next
    case (Some v)
    then have "(nxt, v) \<in> set cnt" by (rule map_of_SomeD)
    then have "1 \<le> v" by (rule cnt_pos)
    then show ?thesis by (simp add: old_def Some)
  qed
  have new_pos: "1 \<le> w" if "(t, w) \<in> set new" for t w
  proof -
    from that set_update_subset [of nxt "old + 1" cnt]
    have "(t, w) = (nxt, old + 1) \<or> (t, w) \<in> set cnt" by (auto simp: new_def)
    then show ?thesis using old_nonneg cnt_pos by auto
  qed
  have new_ne: "new \<noteq> []" by (simp add: new_def)
  have eq: "bump m st nxt = AList.update st new m"
    by (simp add: bump_def cnt_def old_def new_def Let_def)
  show ?thesis
    unfolding eq model_inv_iff
  proof (intro allI impI)
    fix st' c'
    assume "(st', c') \<in> set (AList.update st new m)"
    with set_update_subset [of st new m]
    have "(st', c') = (st, new) \<or> (st', c') \<in> set m" by auto
    then show "length st' = k \<and> c' \<noteq> [] \<and> (\<forall>t w. (t, w) \<in> set c' \<longrightarrow> 1 \<le> w)"
    proof
      assume "(st', c') = (st, new)"
      then show ?thesis using assms(2) new_ne new_pos by auto
    next
      assume "(st', c') \<in> set m"
      with assms(1) show ?thesis unfolding model_inv_iff by blast
    qed
  qed
qed

lemma model_inv_foldl:
  assumes "model_inv k m" and "\<forall>j\<in>set js. j + k \<le> length tokens"
  shows "model_inv k (foldl (\<lambda>m j. bump m (take k (drop j tokens)) (tokens ! (j + k))) m js)"
  using assms
proof (induction js arbitrary: m)
  case Nil
  then show ?case by simp
next
  case (Cons j js)
  from Cons.prems have "j + k \<le> length tokens" by simp
  then have "length (take k (drop j tokens)) = k" by simp
  with Cons.prems(1) have "model_inv k (bump m (take k (drop j tokens)) (tokens ! (j + k)))"
    by (rule model_inv_bump)
  with Cons.IH Cons.prems(2) show ?case by simp
qed

lemma build_model_tokens_foldl:
  assumes "2 \<le> n"
  shows "build_model_tokens tokens n =
     Inr (foldl (\<lambda>m j. bump m (take (nat (n - 1)) (drop j tokens)) (tokens ! (j + nat (n - 1))))
            [] [0..<length tokens - nat n])"
proof (cases "int (length tokens) < n")
  case True
  then have "length tokens - nat n = 0" by simp
  with True show ?thesis by (simp add: build_model_tokens_def)
next
  case False
  have n1: "1 \<le> n" using assms by simp
  have "nat (int (length tokens) - n) = length tokens - nat n"
    using assms by linarith
  then have rng: "py_range (int (length tokens) - n) = map int [0..<length tokens - nat n]"
    by (simp add: py_range_def)
  have inside: "\<forall>j\<in>set [0..<length tokens - nat n]. int j + n - 1 < int (length tokens)"
    using assms by auto
  show ?thesis
    using False by (simp add: build_model_tokens_def rng build_loop_foldl [OF n1 inside])
qed

lemma build_model_tokens_inv:
  assumes "2 \<le> n"
  obtains m where "build_model_tokens tokens n = Inr m" and "model_inv (nat (n - 1)) m"
proof -
  define m where "m = foldl (\<lambda>m j. bump m (take (nat (n - 1)) (drop j tokens))
                     (tokens ! (j + nat (n - 1)))) [] [0..<length tokens - nat n]"
  have built: "build_model_tokens tokens n = Inr m"
    unfolding m_def by (rule build_model_tokens_foldl [OF assms])
  have "\<forall>j\<in>set [0..<length tokens - nat n]. j + nat (n - 1) \<le> length tokens"
    using assms by auto
  moreover have "model_inv (nat (n - 1)) []" by (simp add: model_inv_def)
  ultimately have "model_inv (nat (n - 1)) m"
    unfolding m_def by (rule model_inv_foldl [rotated])
  with built show ?thesis by (rule that)
qed

text \<open>
  C9. For every token sequence and every \<open>n \<ge> 2\<close>, \<open>build_model\<close> returns a model
  (it does not raise) in which every state key has exactly \<open>n - 1\<close> tokens and every
  count stored in a counter is at least 1.
\<close>

theorem build_model_shape:
  assumes "2 \<le> n"
  shows "\<exists>m. build_model_tokens tokens n = Inr m \<and>
           (\<forall>(st, cnt)\<in>set m. int (length st) = n - 1 \<and> (\<forall>(t, w)\<in>set cnt. 1 \<le> w))"
proof -
  from assms obtain m where built: "build_model_tokens tokens n = Inr m"
    and inv: "model_inv (nat (n - 1)) m" by (rule build_model_tokens_inv)
  have len: "int (nat (n - 1)) = n - 1" using assms by simp
  have "\<forall>(st, cnt)\<in>set m. int (length st) = n - 1 \<and> (\<forall>(t, w)\<in>set cnt. 1 \<le> w)"
  proof (clarify, intro conjI ballI)
    fix st cnt
    assume "(st, cnt) \<in> set m"
    with inv have "length st = nat (n - 1)" unfolding model_inv_iff by blast
    then show "int (length st) = n - 1" using len by simp
  next
    fix st cnt x
    assume "(st, cnt) \<in> set m" and "x \<in> set cnt"
    with inv show "case x of (t, w) \<Rightarrow> 1 \<le> w"
      unfolding model_inv_iff by (cases x) blast
  qed
  with built show ?thesis by blast
qed

theorem build_model_shape_witness:
  "(2::int) \<le> 3 \<and>
   (\<exists>m. build_model_tokens cat_tokens 3 = Inr m \<and>
      (\<forall>(st, cnt)\<in>set m. int (length st) = 3 - 1 \<and> (\<forall>(t, w)\<in>set cnt. 1 \<le> w)))"
  using build_model_shape [of 3 cat_tokens] by simp

lemma build_model_counts:
  assumes "2 \<le> n"
  obtains m where "build_model_tokens tokens n = Inr m"
    and "\<And>st t. model_count m st t =
           int (window_hits tokens (nat (n - 1)) st t [0..<length tokens - nat n])"
proof -
  define m where "m = foldl (\<lambda>m j. bump m (take (nat (n - 1)) (drop j tokens))
                     (tokens ! (j + nat (n - 1)))) [] [0..<length tokens - nat n]"
  have built: "build_model_tokens tokens n = Inr m"
    unfolding m_def by (rule build_model_tokens_foldl [OF assms])
  have "model_count m st t =
          int (window_hits tokens (nat (n - 1)) st t [0..<length tokens - nat n])" for st t
    unfolding m_def by (simp add: model_count_foldl) (simp add: model_count_def)
  with built show ?thesis by (rule that)
qed

lemma bump_nonempty: "bump m st nxt \<noteq> []"
  by (simp add: bump_def Let_def)

lemma foldl_bump_nonempty:
  "m \<noteq> [] \<or> js \<noteq> [] \<Longrightarrow>
     foldl (\<lambda>m j. bump m (take k (drop j tokens)) (tokens ! (j + k))) m js \<noteq> []"
  by (induction js arbitrary: m) (simp_all add: bump_nonempty)

lemma build_model_empty_iff:
  assumes "2 \<le> n"
  shows "build_model_tokens tokens n = Inr [] \<longleftrightarrow> int (length tokens) \<le> n"
proof (cases "int (length tokens) \<le> n")
  case True
  then have "length tokens - nat n = 0" by simp
  with True show ?thesis by (simp add: build_model_tokens_foldl [OF assms])
next
  case False
  then have "[0..<length tokens - nat n] \<noteq> []" using assms by simp
  then have "foldl (\<lambda>m j. bump m (take (nat (n - 1)) (drop j tokens))
               (tokens ! (j + nat (n - 1)))) [] [0..<length tokens - nat n] \<noteq> []"
    by (intro foldl_bump_nonempty) simp
  with False show ?thesis by (simp add: build_model_tokens_foldl [OF assms])
qed

text \<open>
  C1. The claim counts every index of the inclusive range \<open>[0, len(T) - n]\<close>. The loop
  of \<open>build_model\<close> runs over \<open>range(len(tokens) - n)\<close>, which stops one index earlier,
  so the last full window is not counted. For the four tokens neko, ha, neko, ha and
  \<open>n = 2\<close> the state (neko) is followed by ha at the indices 0 and 2, a count of 2
  over the claim's range, and the model built stores the count 1.
\<close>

theorem last_window_not_counted:
  "build_model_tokens [[29483], [12399], [29483], [12399]] 2 =
     Inr [([[29483]], [([12399], 1)]), ([[12399]], [([29483], 1)])] \<and>
   model_count [([[29483]], [([12399], 1)]), ([[12399]], [([29483], 1)])] [[29483]] [12399] = 1 \<and>
   window_hits [[29483], [12399], [29483], [12399]] 1 [[29483]] [12399] [0..<Suc (4 - 2)] = 2"
  by code_simp

text \<open>
  C2. For three tokens and \<open>n = 3\<close> the guard \<open>len(tokens) < n\<close> does not hold, one
  full window exists, and the model built is empty all the same: the loop over
  \<open>range(len(tokens) - n)\<close> makes no iteration.
\<close>

theorem exactly_n_tokens_empty_model:
  "build_model_tokens [[31169], [12399], [29483]] 3 = Inr [] \<and>
   \<not> int (length [[31169], [12399], [29483 :: int]]) < 3"
  by code_simp


section \<open>Properties of generate_sentence\<close>

lemma py_index_0: "py_index s 0 = (if s = [] then Inl IndexError else Inr (hd s))"
  by (cases s) (simp_all add: py_index_def)

lemma start_candidates_Inr:
  "start_candidates ks = Inr c \<Longrightarrow>
     (\<forall>s\<in>set ks. s \<noteq> []) \<and> c = filter (\<lambda>s. hd s \<notin> END_TOKENS) ks"
proof (induction ks arbitrary: c)
  case Nil
  then show ?case by simp
next
  case (Cons s ss)
  from Cons.prems have ne: "s \<noteq> []"
    by (auto simp: py_index_0 split: if_splits)
  from Cons.prems ne obtain r where r: "start_candidates ss = Inr r"
    and c: "c = (if hd s \<notin> END_TOKENS then s # r else r)"
    by (auto simp: py_index_0 split: sum.splits)
  from Cons.IH [OF r] ne c show ?case by auto
qed

lemma start_candidates_total:
  "\<forall>s\<in>set ks. s \<noteq> [] \<Longrightarrow> start_candidates ks = Inr (filter (\<lambda>s. hd s \<notin> END_TOKENS) ks)"
  by (induction ks) (simp_all add: py_index_0)

lemma start_candidates_Inl: "start_candidates ks = Inl e \<Longrightarrow> e = IndexError"
  by (induction ks arbitrary: e) (auto simp: py_index_0 split: if_splits sum.splits)

lemma candidates_of_Inl: "candidates_of m = Inl e \<Longrightarrow> e = IndexError"
  by (auto simp: candidates_of_def split: sum.splits dest: start_candidates_Inl)

lemma candidates_of_Inr:
  assumes "candidates_of m = Inr c" and "m \<noteq> []"
  shows "c \<noteq> []" and "set c \<subseteq> set (map fst m)" and "\<forall>s\<in>set (map fst m). s \<noteq> []"
    and "hd (hd c) \<in> END_TOKENS \<or> (\<exists>s\<in>set c. hd s \<in> END_TOKENS)
           \<Longrightarrow> \<forall>s\<in>set (map fst m). hd s \<in> END_TOKENS"
proof -
  from assms(1) obtain r where r: "start_candidates (map fst m) = Inr r"
    and c: "c = (if r = [] then map fst m else r)"
    by (auto simp: candidates_of_def split: sum.splits)
  from start_candidates_Inr [OF r]
  have ne: "\<forall>s\<in>set (map fst m). s \<noteq> []"
    and flt: "r = filter (\<lambda>s. hd s \<notin> END_TOKENS) (map fst m)" by simp_all
  show "c \<noteq> []" using c assms(2) by simp
  show "set c \<subseteq> set (map fst m)" using c flt by auto
  show "\<forall>s\<in>set (map fst m). s \<noteq> []" by (rule ne)
  assume bad: "hd (hd c) \<in> END_TOKENS \<or> (\<exists>s\<in>set c. hd s \<in> END_TOKENS)"
  have "r = []"
  proof (rule ccontr)
    assume "r \<noteq> []"
    then have "c = r" using c by simp
    then have "\<forall>s\<in>set c. hd s \<notin> END_TOKENS" using flt by auto
    moreover have "hd c \<in> set c" using \<open>c = r\<close> \<open>r \<noteq> []\<close> by simp
    ultimately show False using bad by blast
  qed
  then show "\<forall>s\<in>set (map fst m). hd s \<in> END_TOKENS"
    using flt by (auto simp: filter_empty_conv)
qed

lemma candidates_of_total:
  assumes "\<forall>s\<in>set (map fst m). s \<noteq> []"
  shows "\<exists>c. candidates_of m = Inr c"
  by (simp add: candidates_of_def start_candidates_total [OF assms])

lemma random_choice_Inr:
  "random_choice R g xs = Inr (x, g') \<Longrightarrow> x \<in> set xs"
  by (auto simp: random_choice_def split: if_splits prod.splits)

lemma pick_start_Some:
  assumes "pick_start R tg c g = Some y"
  shows "case y of Inl e \<Rightarrow> e = IndexError \<and> (c = [] \<or> (\<exists>s\<in>set c. s = []))
      | Inr (st, g') \<Rightarrow> st \<in> set c \<and> st \<noteq> [] \<and> \<not> is_particle tg (hd st)"
  using assms
proof (induct R tg c g y rule: pick_start.raw_induct [rotated 1, consumes 1, case_names step])
  case (step ps R tg c g y)
  note IH = step(1) and body = step(2)
  show ?case
  proof (cases "random_choice R g c")
    case (Inl e)
    then have "c = []" by (auto simp: random_choice_def split: if_splits prod.splits)
    then have "random_choice R g c = Inl IndexError" by (simp add: random_choice_def)
    with body have "y = Inl IndexError" by simp
    with \<open>c = []\<close> show ?thesis by simp
  next
    case (Inr p)
    obtain s g1 where p: "p = (s, g1)" by (cases p)
    note rc = Inr [unfolded p]
    show ?thesis
    proof (cases "s = []")
      case True
      with body rc have "y = Inl IndexError" by (auto simp: py_index_0)
      with True random_choice_Inr [OF rc] show ?thesis by auto
    next
      case ne: False
      show ?thesis
      proof (cases "is_particle tg (hd s)")
        case True
        with body rc ne have "ps R tg c g1 = Some y" by (simp add: py_index_0)
        then show ?thesis by (rule IH)
      next
        case False
        with body rc ne have "y = Inr (s, g1)" by (auto simp: py_index_0)
        with False ne random_choice_Inr [OF rc] show ?thesis by simp
      qed
    qed
  qed
qed

lemma pick_start_Inr:
  assumes "pick_start R tg c g = Some (Inr (st, g'))"
  shows "st \<in> set c" and "st \<noteq> []" and "\<not> is_particle tg (hd st)"
  using pick_start_Some [OF assms] by simp_all

lemma pick_start_Inl:
  assumes "pick_start R tg c g = Some (Inl e)"
  shows "e = IndexError" and "c = [] \<or> (\<exists>s\<in>set c. s = [])"
  using pick_start_Some [OF assms] by simp_all

lemma extend_loop_cases [case_names stop error final step]:
  obtains
    "extend_loop R m n max_len st out g = Inr (out, g)"
  | cnt e where "map_of m st = Some cnt" and "cnt \<noteq> []" and "choose_next R cnt g = Inl e"
      and "extend_loop R m n max_len st out g = Inl e"
  | cnt x g1 where "int (length out) < max_len" and "map_of m st = Some cnt" and "cnt \<noteq> []"
      and "choose_next R cnt g = Inr (x, g1)" and "x \<in> END_TOKENS"
      and "extend_loop R m n max_len st out g = Inr (out @ [x], g1)"
  | cnt x g1 where "int (length out) < max_len" and "map_of m st = Some cnt" and "cnt \<noteq> []"
      and "choose_next R cnt g = Inr (x, g1)" and "x \<notin> END_TOKENS"
      and "extend_loop R m n max_len st out g =
           extend_loop R m n max_len (py_slice_from (out @ [x]) (- (n - 1))) (out @ [x]) g1"
proof (cases "int (length out) < max_len")
  case False
  then have "extend_loop R m n max_len st out g = Inr (out, g)"
    by (subst extend_loop.simps) simp
  then show ?thesis by (rule that(1))
next
  case len: True
  show ?thesis
  proof (cases "map_of m st")
    case None
    with len have "extend_loop R m n max_len st out g = Inr (out, g)"
      by (subst extend_loop.simps) simp
    then show ?thesis by (rule that(1))
  next
    case (Some cnt)
    show ?thesis
    proof (cases "cnt = []")
      case True
      with len Some have "extend_loop R m n max_len st out g = Inr (out, g)"
        by (subst extend_loop.simps) simp
      then show ?thesis by (rule that(1))
    next
      case ne: False
      show ?thesis
      proof (cases "choose_next R cnt g")
        case (Inl e)
        with len Some ne have "extend_loop R m n max_len st out g = Inl e"
          by (subst extend_loop.simps) simp
        with Some ne Inl show ?thesis by (rule that(2))
      next
        case (Inr p)
        obtain x g1 where p: "p = (x, g1)" by (cases p)
        note ch = Inr [unfolded p]
        show ?thesis
        proof (cases "x \<in> END_TOKENS")
          case True
          with len Some ne ch have "extend_loop R m n max_len st out g = Inr (out @ [x], g1)"
            by (subst extend_loop.simps) simp
          with len Some ne ch True show ?thesis by (rule that(3))
        next
          case False
          with len Some ne ch
          have "extend_loop R m n max_len st out g =
                extend_loop R m n max_len (py_slice_from (out @ [x]) (- (n - 1))) (out @ [x]) g1"
            by (subst extend_loop.simps) simp
          with len Some ne ch False show ?thesis by (rule that(4))
        qed
      qed
    qed
  qed
qed

lemma extend_loop_Inr:
  "extend_loop R m n max_len st out g = Inr (out', g') \<Longrightarrow>
     (\<exists>suf. out' = out @ suf) \<and> int (length out') \<le> max max_len (int (length out))"
proof (induction R m n max_len st out g rule: extend_loop.induct)
  case (1 R m n max_len st out g)
  show ?case
  proof (cases R m n max_len st out g rule: extend_loop_cases)
    case stop
    with "1.prems" show ?thesis by simp
  next
    case (error cnt e)
    with "1.prems" show ?thesis by simp
  next
    case (final cnt x g1)
    with "1.prems" show ?thesis by auto
  next
    case (step cnt x g1)
    from "1.prems" step(6)
    have "extend_loop R m n max_len (py_slice_from (out @ [x]) (- (n - 1))) (out @ [x]) g1 =
          Inr (out', g')" by simp
    from "1.IH" [OF step(1,2,3,4) refl step(5) this]
    show ?thesis using step(1) by auto
  qed
qed

lemma choose_next_Inl:
  "choose_next R cnt g = Inl e \<Longrightarrow> cnt \<noteq> [] \<Longrightarrow>
     (e = WeightError \<or> e = OverflowError) \<and>
     (sum_list (map snd cnt) \<le> 0 \<or> FLOAT_LIMIT \<le> sum_list (map snd cnt))"
  by (auto simp: choose_next_def Let_def split: if_splits prod.splits)

lemma extend_loop_Inl:
  "extend_loop R m n max_len st out g = Inl e \<Longrightarrow>
     (e = WeightError \<or> e = OverflowError) \<and>
     (\<exists>cnt\<in>set (map snd m). cnt \<noteq> [] \<and>
        (sum_list (map snd cnt) \<le> 0 \<or> FLOAT_LIMIT \<le> sum_list (map snd cnt)))"
proof (induction R m n max_len st out g rule: extend_loop.induct)
  case (1 R m n max_len st out g)
  show ?case
  proof (cases R m n max_len st out g rule: extend_loop_cases)
    case stop
    with "1.prems" show ?thesis by simp
  next
    case (error cnt e')
    from "1.prems" error(4) have "e' = e" by simp
    from choose_next_Inl [OF error(3) error(2)] map_of_SomeD [OF error(1)] error(2) this
    show ?thesis by force
  next
    case (final cnt x g1)
    with "1.prems" show ?thesis by simp
  next
    case (step cnt x g1)
    from "1.prems" step(6)
    have "extend_loop R m n max_len (py_slice_from (out @ [x]) (- (n - 1))) (out @ [x]) g1 = Inl e"
      by simp
    from "1.IH" [OF step(1,2,3,4) refl step(5) this] show ?thesis .
  qed
qed


lemma generate_out_Inr:
  assumes "generate_out R tg m n max_len seed g = Some (Inr (out, g'))" and "m \<noteq> []"
  obtains c st g1 where "candidates_of m = Inr c"
    and "pick_start R tg c (case seed of None \<Rightarrow> g | Some s \<Rightarrow> rseed R s) = Some (Inr (st, g1))"
    and "extend_loop R m n max_len st st g1 = Inr (out, g')"
proof -
  from assms obtain c where c: "candidates_of m = Inr c"
    by (auto simp: generate_out_def Let_def split: sum.splits)
  from assms c obtain st g1 where
    "pick_start R tg c (case seed of None \<Rightarrow> g | Some s \<Rightarrow> rseed R s) = Some (Inr (st, g1))"
    and "extend_loop R m n max_len st st g1 = Inr (out, g')"
    by (auto simp: generate_out_def Let_def split: option.splits sum.splits)
  with c show ?thesis by (rule that)
qed

lemma generate_out_Inl:
  assumes "generate_out R tg m n max_len seed g = Some (Inl e)"
  shows "e \<noteq> UnpackError"
    and "(\<exists>st\<in>set (map fst m). st = []) \<or>
         (\<exists>cnt\<in>set (map snd m). cnt \<noteq> [] \<and>
            (sum_list (map snd cnt) \<le> 0 \<or> FLOAT_LIMIT \<le> sum_list (map snd cnt)))"
proof -
  let ?g0 = "case seed of None \<Rightarrow> g | Some s \<Rightarrow> rseed R s"
  from assms have ne: "m \<noteq> []"
    by (auto simp: generate_out_def Let_def split: if_splits)
  have "e \<noteq> UnpackError \<and> ((\<exists>st\<in>set (map fst m). st = []) \<or>
         (\<exists>cnt\<in>set (map snd m). cnt \<noteq> [] \<and>
            (sum_list (map snd cnt) \<le> 0 \<or> FLOAT_LIMIT \<le> sum_list (map snd cnt))))"
  proof (cases "candidates_of m")
    case (Inl e')
    with assms ne have "e' = e" by (simp add: generate_out_def Let_def)
    with Inl have e: "e = IndexError" by (simp add: candidates_of_Inl)
    have "\<not> (\<forall>s\<in>set (map fst m). s \<noteq> [])"
      using candidates_of_total [of m] Inl by auto
    then have "\<exists>st\<in>set (map fst m). st = []" by blast
    with e show ?thesis by blast
  next
    case (Inr c)
    note cand = candidates_of_Inr [OF Inr ne]
    show ?thesis
    proof (cases "pick_start R tg c ?g0")
      case None
      with assms ne Inr show ?thesis by (simp add: generate_out_def Let_def)
    next
      case (Some r)
      show ?thesis
      proof (cases r)
        case (Inl e')
        with assms ne Inr Some have "e' = e" by (simp add: generate_out_def Let_def)
        with Some Inl have "pick_start R tg c ?g0 = Some (Inl e)" by simp
        from pick_start_Inl [OF this] cand(1,2) show ?thesis by auto
      next
        case (Inr p)
        obtain st g1 where p: "p = (st, g1)" by (cases p)
        from assms ne \<open>candidates_of m = Inr c\<close> Some Inr p
        have "extend_loop R m n max_len st st g1 = Inl e"
          by (simp add: generate_out_def Let_def)
        from extend_loop_Inl [OF this] show ?thesis by auto
      qed
    qed
  qed
  then show "e \<noteq> UnpackError"
    and "(\<exists>st\<in>set (map fst m). st = []) \<or>
         (\<exists>cnt\<in>set (map snd m). cnt \<noteq> [] \<and>
            (sum_list (map snd cnt) \<le> 0 \<or> FLOAT_LIMIT \<le> sum_list (map snd cnt)))" by simp_all
qed

lemma generate_sentence_Inl:
  "generate_sentence R tg m n max_len seed g = Some (Inl e) \<longleftrightarrow>
   generate_out R tg m n max_len seed g = Some (Inl e)"
  by (auto simp: generate_sentence_def split: option.splits sum.splits)

lemma generate_sentence_Inr:
  "generate_sentence R tg m n max_len seed g = Some (Inr (s, g')) \<longleftrightarrow>
   (\<exists>out. generate_out R tg m n max_len seed g = Some (Inr (out, g')) \<and> s = concat out)"
  by (auto simp: generate_sentence_def split: option.splits sum.splits)

text \<open>
  C8. When \<open>generate_sentence\<close> returns a non-empty sentence, it is the concatenation
  of a non-empty token list \<open>out\<close> whose first token is not a terminator token, unless
  every state key of the model starts with a terminator token (the fallback to all
  keys).
\<close>

theorem start_token_policy:
  assumes "generate_sentence R tg m n max_len seed g = Some (Inr (s, g'))" and "s \<noteq> []"
  shows "\<exists>out. generate_out R tg m n max_len seed g = Some (Inr (out, g')) \<and> s = concat out \<and>
           out \<noteq> [] \<and>
           (hd out \<notin> END_TOKENS \<or> (\<forall>st\<in>set (map fst m). st \<noteq> [] \<and> hd st \<in> END_TOKENS))"
proof -
  from assms(1) obtain out where out: "generate_out R tg m n max_len seed g = Some (Inr (out, g'))"
    and s: "s = concat out" by (auto simp: generate_sentence_Inr)
  have ne: "m \<noteq> []"
  proof
    assume "m = []"
    with out have "out = []" by (simp add: generate_out_def Let_def)
    with s assms(2) show False by simp
  qed
  from out ne obtain c st g1 where c: "candidates_of m = Inr c"
    and pick: "pick_start R tg c (case seed of None \<Rightarrow> g | Some s \<Rightarrow> rseed R s) = Some (Inr (st, g1))"
    and ext: "extend_loop R m n max_len st st g1 = Inr (out, g')"
    by (rule generate_out_Inr)
  note cand = candidates_of_Inr [OF c ne]
  note st = pick_start_Inr [OF pick]
  from extend_loop_Inr [OF ext] obtain suf where "out = st @ suf" by blast
  with st(2) have hd: "out \<noteq> []" "hd out = hd st" by simp_all
  have "hd out \<notin> END_TOKENS \<or> (\<forall>st\<in>set (map fst m). st \<noteq> [] \<and> hd st \<in> END_TOKENS)"
  proof (cases "hd st \<in> END_TOKENS")
    case True
    with st(1) have "\<exists>s\<in>set c. hd s \<in> END_TOKENS" by blast
    then have "\<forall>s\<in>set (map fst m). hd s \<in> END_TOKENS" using cand(4) by blast
    with cand(3) show ?thesis by blast
  next
    case False
    with hd show ?thesis by simp
  qed
  with out s hd show ?thesis by blast
qed

theorem start_token_policy_witness:
  "generate_sentence cycle_rng pos_tagger
     [([[31169], [12399]], [([29483], 1)]), ([[12399], [29483]], [([12384], 1)]),
      ([[29483], [12384]], [([12290], 1)]), ([[12384], [12290]], [([29483], 1)]),
      ([[12290], [29483]], [([12399], 1)]), ([[29483], [12399]], [([21487, 24859, 12356], 1)])]
     3 10 (Some 1) 0 = Some (Inr ([29483, 12384, 12290], 4)) \<and>
   [29483, 12384, 12290] \<noteq> ([] :: pystr) \<and>
   (\<exists>out. generate_out cycle_rng pos_tagger
      [([[31169], [12399]], [([29483], 1)]), ([[12399], [29483]], [([12384], 1)]),
       ([[29483], [12384]], [([12290], 1)]), ([[12384], [12290]], [([29483], 1)]),
       ([[12290], [29483]], [([12399], 1)]), ([[29483], [12399]], [([21487, 24859, 12356], 1)])]
      3 10 (Some 1) 0 = Some (Inr (out, 4)) \<and> [29483, 12384, 12290] = concat out \<and>
      out \<noteq> [] \<and> hd out \<notin> END_TOKENS)"
proof -
  let ?m = "[([[31169], [12399]], [([29483], 1)]), ([[12399], [29483]], [([12384], 1)]),
      ([[29483], [12384]], [([12290], 1)]), ([[12384], [12290]], [([29483], 1)]),
      ([[12290], [29483]], [([12399], 1)]), ([[29483], [12399]], [([21487, 24859, 12356], 1)])] :: model"
  have run: "generate_sentence cycle_rng pos_tagger ?m 3 10 (Some 1) 0 =
             Some (Inr ([29483, 12384, 12290], 4))"
    by code_simp
  have ne: "[29483, 12384, 12290] \<noteq> ([] :: pystr)" by simp
  have key: "\<not> (\<forall>st\<in>set (map fst ?m). st \<noteq> [] \<and> hd st \<in> END_TOKENS)"
    by (simp add: END_TOKENS_def)
  from start_token_policy [OF run ne] key run ne show ?thesis by blast
qed

text \<open>
  C10. On a model built by \<open>build_model\<close> (\<open>n \<ge> 2\<close>) every counter has an entry, and
  no run of \<open>generate_sentence\<close> on it, whatever the tagger, the random source and the
  other arguments, ends in the error that \<open>choose_next\<close> raises on an empty counter:
  \<open>choose_next\<close> is never applied to an empty counter.
\<close>

theorem choose_next_never_empty:
  assumes "2 \<le> n"
  shows "\<exists>m. build_model_tokens tokens n = Inr m \<and> (\<forall>cnt\<in>set (map snd m). cnt \<noteq> []) \<and>
           (\<forall>R tg k max_len seed. \<forall>g :: 'g.
              generate_sentence R tg m k max_len seed g \<noteq> Some (Inl UnpackError))"
proof -
  from assms obtain m where built: "build_model_tokens tokens n = Inr m"
    and inv: "model_inv (nat (n - 1)) m" by (rule build_model_tokens_inv)
  have entries: "\<forall>cnt\<in>set (map snd m). cnt \<noteq> []"
    using inv unfolding model_inv_iff by auto
  have "generate_sentence R tg m k max_len seed g \<noteq> Some (Inl UnpackError)"
    for R :: "'g rng" and tg k max_len seed g
    using generate_out_Inl(1) [of R tg m k max_len seed g UnpackError]
    by (auto simp: generate_sentence_Inl)
  with built entries show ?thesis by blast
qed

theorem choose_next_never_empty_witness:
  "(2::int) \<le> 3 \<and>
   (\<exists>m. build_model_tokens cat_tokens 3 = Inr m \<and> (\<forall>cnt\<in>set (map snd m). cnt \<noteq> []) \<and>
           (\<forall>R tg k max_len seed. \<forall>g :: nat.
              generate_sentence R tg m k max_len seed g \<noteq> Some (Inl UnpackError)))"
  using choose_next_never_empty [of 3 cat_tokens, where 'g = nat] by simp

text \<open>
  C6. With a seed given, the generator is re-seeded before anything is drawn, so the
  result (the sentence and the state the generator is left in) does not depend on the
  state of the generator before the call: two calls with the same arguments return
  the same output.
\<close>

theorem seed_determinism:
  "generate_sentence R tg m n max_len (Some s) g1 =
   generate_sentence R tg m n max_len (Some s) g2"
  by (simp add: generate_sentence_def generate_out_def)

text \<open>
  C3. \<open>START_EXCLUDE\<close> is defined and never read: the start loop asks only
  \<open>is_particle\<close>. With a tagger whose features carry no \<open>pos\<close> attribute (the case the
  default of \<open>getattr\<close> provides for) nothing is classified as a particle, and a
  sentence starts with ga, a member of \<open>START_EXCLUDE\<close>. The model is the one
  \<open>build_model\<close> builds from ga, neko, da, full stop with \<open>n = 2\<close>.
\<close>

theorem start_exclude_not_checked:
  "build_model_tokens [[12364], [29483], [12384], [12290]] 2 =
     Inr [([[12364]], [([29483], 1)]), ([[29483]], [([12384], 1)])] \<and>
   generate_out first_rng plain_tagger
     [([[12364]], [([29483], 1)]), ([[29483]], [([12384], 1)])] 2 1000 (Some 42) 0 =
     Some (Inr ([[12364], [29483], [12384]], 0)) \<and>
   generate_sentence first_rng plain_tagger
     [([[12364]], [([29483], 1)]), ([[29483]], [([12384], 1)])] 2 1000 (Some 42) 0 =
     Some (Inr ([12364, 29483, 12384], 0)) \<and>
   [12364] \<in> START_EXCLUDE"
  by code_simp

lemma generate_out_length:
  assumes "generate_out R tg m n max_len seed g = Some (Inr (out, g'))"
    and "\<forall>st\<in>set (map fst m). length st = k"
  shows "int (length out) \<le> max max_len (int k)"
proof (cases "m = []")
  case True
  with assms(1) have "out = []" by (simp add: generate_out_def Let_def)
  then show ?thesis by simp
next
  case False
  with assms(1) obtain c st g1 where c: "candidates_of m = Inr c"
    and pick: "pick_start R tg c (case seed of None \<Rightarrow> g | Some s \<Rightarrow> rseed R s) = Some (Inr (st, g1))"
    and ext: "extend_loop R m n max_len st st g1 = Inr (out, g')"
    by (rule generate_out_Inr)
  from pick_start_Inr(1) [OF pick] candidates_of_Inr(2) [OF c False] assms(2)
  have "length st = k" by blast
  with extend_loop_Inr [OF ext] show ?thesis by simp
qed

text \<open>
  C4. The bound \<open>len(out) < max_len\<close> guards the extension loop only; the start state
  is copied into \<open>out\<close> whatever \<open>max_len\<close> is. With \<open>n = 3\<close> and \<open>max_len = 1\<close> the
  result is built from the 2 tokens of the start state.
\<close>

theorem max_len_exceeded:
  "generate_out first_rng plain_tagger [([[29483], [12399]], [([12384], 1)])] 3 1 (Some 42) 0 =
     Some (Inr ([[29483], [12399]], 0)) \<and>
   \<not> int (length [[29483], [12399 :: int]]) \<le> 1"
  by code_simp

lemma choose_next_single:
  "0 < w \<Longrightarrow> w < FLOAT_LIMIT \<Longrightarrow>
     choose_next R [(t, w)] g = Inr (t, snd (rchoices R g [w]))"
  by (simp add: choose_next_def split: prod.splits)

lemma one_fits: "(1::int) < FLOAT_LIMIT"
  by (simp add: FLOAT_LIMIT_def)

text \<open>
  C7 as stated fails: in the token sequence the state (ha, neko) occurs once, at index
  1, followed by da; kawaii follows (neko, ha), not (ha, neko). The model built stores
  no count for kawaii under (ha, neko).
\<close>

theorem cat_model_counterexample:
  "(case build_model_tokens cat_tokens 3 of
      Inl e \<Rightarrow> None
    | Inr m \<Rightarrow> Some (model_count m [[12399], [29483]] [21487, 24859, 12356])) = Some 0"
  by code_simp

text \<open>
  C7, amended. For the token sequence watashi, ha, neko, da, full stop, neko, ha,
  kawaii, full stop and \<open>n = 3\<close> every state of the model built has length 2, the
  entry of (watashi, ha) is \<open>{neko: 1}\<close> and the entry of (ha, neko) is \<open>{da: 1}\<close>.
  The extension loop started from the state (watashi, ha), with the default
  \<open>max_len = 1000\<close>, meets only counters with a single entry, so whatever the random
  source draws it produces the tokens watashi, ha, neko, da, full stop, whose
  concatenation is the sentence of the claim.
\<close>

theorem cat_model_generation:
  "\<exists>m. build_model_tokens cat_tokens 3 = Inr m \<and>
     list_all (\<lambda>st. length st = 2) (map fst m) \<and>
     map_of m [[31169], [12399]] = Some [([29483], 1)] \<and>
     map_of m [[12399], [29483]] = Some [([12384], 1)] \<and>
     (\<forall>(R :: 'g rng) g. \<exists>g'.
        extend_loop R m 3 1000 [[31169], [12399]] [[31169], [12399]] g =
          Inr ([[31169], [12399], [29483], [12384], [12290]], g')) \<and>
     concat [[31169], [12399], [29483], [12384], [12290]] =
       [31169, 12399, 29483, 12384, 12290 :: int]"
proof -
  define m :: model where
    "m = [([[31169], [12399]], [([29483], 1)]), ([[12399], [29483]], [([12384], 1)]),
      ([[29483], [12384]], [([12290], 1)]), ([[12384], [12290]], [([29483], 1)]),
      ([[12290], [29483]], [([12399], 1)]),
      ([[29483], [12399]], [([21487, 24859, 12356], 1)])]"
  have built: "build_model_tokens cat_tokens 3 = Inr m" unfolding m_def by code_simp
  have keys: "list_all (\<lambda>st. length st = 2) (map fst m)" unfolding m_def by simp
  have e1: "map_of m [[31169], [12399]] = Some [([29483], 1)]" unfolding m_def by simp
  have e2: "map_of m [[12399], [29483]] = Some [([12384], 1)]" unfolding m_def by simp
  have e3: "map_of m [[29483], [12384]] = Some [([12290], 1)]" unfolding m_def by simp
  have s1: "py_slice_from [[31169], [12399], [29483]] (- 2) = [[12399], [29483 :: int]]"
    by (simp add: py_slice_from_def slice_bound_def)
  have s2: "py_slice_from [[31169], [12399], [29483], [12384]] (- 2) =
              [[29483], [12384 :: int]]"
    by (simp add: py_slice_from_def slice_bound_def)
  have run: "\<exists>g'. extend_loop R m 3 1000 [[31169], [12399]] [[31169], [12399]] g =
          Inr ([[31169], [12399], [29483], [12384], [12290]], g')" for R :: "'g rng" and g
  proof -
    define g1 where "g1 = snd (rchoices R g [1])"
    define g2 where "g2 = snd (rchoices R g1 [1])"
    define g3 where "g3 = snd (rchoices R g2 [1])"
    have step3: "extend_loop R m 3 1000 [[29483], [12384]]
                   [[31169], [12399], [29483], [12384]] g2 =
                 Inr ([[31169], [12399], [29483], [12384], [12290]], g3)"
      by (subst extend_loop.simps)
         (simp only: e3, simp add: choose_next_single one_fits g3_def [symmetric] END_TOKENS_def)
    have step2: "extend_loop R m 3 1000 [[12399], [29483]] [[31169], [12399], [29483]] g1 =
                 Inr ([[31169], [12399], [29483], [12384], [12290]], g3)"
      by (subst extend_loop.simps)
         (simp only: e2, simp add: choose_next_single one_fits g2_def [symmetric] END_TOKENS_def s2 step3)
    have step1: "extend_loop R m 3 1000 [[31169], [12399]] [[31169], [12399]] g =
                 Inr ([[31169], [12399], [29483], [12384], [12290]], g3)"
      by (subst extend_loop.simps)
         (simp only: e1, simp add: choose_next_single one_fits g1_def [symmetric] END_TOKENS_def s1 step2)
    then show ?thesis by (rule exI)
  qed
  have cat: "concat [[31169], [12399], [29483], [12384], [12290]] =
       [31169, 12399, 29483, 12384, 12290 :: int]" by simp
  show ?thesis
  proof (rule exI [of _ m], intro conjI allI)
    show "build_model_tokens cat_tokens 3 = Inr m" by (rule built)
    show "list_all (\<lambda>st. length st = 2) (map fst m)" by (rule keys)
    show "map_of m [[31169], [12399]] = Some [([29483], 1)]" by (rule e1)
    show "map_of m [[12399], [29483]] = Some [([12384], 1)]" by (rule e2)
    show "\<exists>g'. extend_loop R m 3 1000 [[31169], [12399]] [[31169], [12399]] g =
          Inr ([[31169], [12399], [29483], [12384], [12290]], g')" for R :: "'g rng" and g
      by (rule run)
    show "concat [[31169], [12399], [29483], [12384], [12290]] =
       [31169, 12399, 29483, 12384, 12290 :: int]" by (rule cat)
  qed
qed

lemma random_choice_nonempty:
  "c \<noteq> [] \<Longrightarrow>
     random_choice R g c = Inr (start_draw R c g 0, snd (rchoice R g (length c)))"
  by (simp add: random_choice_def start_draw_def split: prod.splits)

lemma start_draw_Suc:
  "start_draw R c g (Suc k) = start_draw R c (snd (rchoice R g (length c))) k"
  by (simp add: start_draw_def)

lemma start_draw_in: "c \<noteq> [] \<Longrightarrow> start_draw R c g k \<in> set c"
  by (simp add: start_draw_def)



lemma pick_start_accepts:
  assumes "pick_start R tg c g = Some y"
  shows "c \<noteq> [] \<longrightarrow> (\<forall>s\<in>set c. s \<noteq> []) \<longrightarrow>
           (\<exists>k. \<not> is_particle tg (hd (start_draw R c g k)))"
  using assms
proof (induct R tg c g y rule: pick_start.raw_induct [rotated 1, consumes 1, case_names step])
  case (step ps R tg c g y)
  note IH = step(1) and body = step(2)
  show ?case
  proof (intro impI)
    assume ne: "c \<noteq> []" and keys: "\<forall>s\<in>set c. s \<noteq> []"
    have s: "start_draw R c g 0 \<noteq> []"
      using ne keys start_draw_in [of c R g 0] by blast
    show "\<exists>k. \<not> is_particle tg (hd (start_draw R c g k))"
    proof (cases "is_particle tg (hd (start_draw R c g 0))")
      case True
      with body s have "ps R tg c (snd (rchoice R g (length c))) = Some y"
        by (simp add: random_choice_nonempty [OF ne] py_index_0)
      from IH [OF this] ne keys
      obtain k where "\<not> is_particle tg (hd (start_draw R c (snd (rchoice R g (length c))) k))"
        by blast
      then have "\<not> is_particle tg (hd (start_draw R c g (Suc k)))"
        by (simp add: start_draw_Suc)
      then show ?thesis by (rule exI)
    next
      case False
      then show ?thesis by (rule exI)
    qed
  qed
qed

lemma pick_start_diverges:
  assumes "c \<noteq> []" and "\<forall>s\<in>set c. s \<noteq> []"
    and "\<forall>k. is_particle tg (hd (start_draw R c g k))"
  shows "pick_start R tg c g = None"
proof (cases "pick_start R tg c g")
  case None
  then show ?thesis .
next
  case (Some y)
  from pick_start_accepts [OF Some] assms show ?thesis by blast
qed








end
